theory Spec2Isabelle
  imports Main "HOL-Library.Sublist"
begin

section \<open>Text: Python \<open>str\<close> values\<close>

text \<open>
  \<open>filter_words.py\<close> works on decoded text (\<open>open(..., 'r', encoding='utf-8')\<close>).
  A Python \<open>str\<close> is a sequence of code points; here it is a \<open>string\<close> whose
  characters stand for the code points U+0000 to U+00FF. On that range
  \<open>str.isspace\<close> and \<open>str.lower\<close> act character by character, as defined below.
\<close>

definition LF :: char where
  "LF = CHR ''\<newline>''"

definition CR :: char where
  "CR = CHR 0x0D"

definition isspace :: "char \<Rightarrow> bool" where
  \<comment> \<open>the characters \<open>str.strip()\<close> removes: TAB, LF, VT, FF, CR, FS, GS, RS, US, SPACE, NEL, NBSP\<close>
  "isspace c = (let n = (of_char c :: nat) in
      (9 \<le> n \<and> n \<le> 13) \<or> (28 \<le> n \<and> n \<le> 32) \<or> n = 133 \<or> n = 160)"

definition lower_char :: "char \<Rightarrow> char" where
  \<comment> \<open>\<open>A\<close> to \<open>Z\<close>, and U+00C0 to U+00DE without the multiplication sign U+00D7\<close>
  "lower_char c = (let n = (of_char c :: nat) in
      if (65 \<le> n \<and> n \<le> 90) \<or> (192 \<le> n \<and> n \<le> 222 \<and> n \<noteq> 215)
      then char_of (n + 32) else c)"

definition lower :: "string \<Rightarrow> string" where
  "lower s = map lower_char s"

definition lstrip :: "string \<Rightarrow> string" where
  "lstrip s = dropWhile isspace s"

definition rstrip :: "string \<Rightarrow> string" where
  "rstrip s = rev (dropWhile isspace (rev s))"

definition strip :: "string \<Rightarrow> string" where
  "strip s = rstrip (lstrip s)"

section \<open>Files\<close>

text \<open>
  A file system maps a path to the decoded text of the file there; \<open>locked\<close> holds the
  paths that cannot be opened for writing. \<open>open\<close> raises \<open>OSError\<close>
  (\<open>FileNotFoundError\<close>, \<open>PermissionError\<close>) on a path it cannot open.
\<close>

type_synonym path = string

record filesystem =
  files :: "path \<rightharpoonup> string"
  locked :: "path set"

datatype error = OSError

text \<open>
  Reading in text mode with the default \<open>newline=None\<close> turns \<open>\r\n\<close> and a lone
  \<open>\r\<close> into \<open>\n\<close>; writing leaves \<open>\n\<close> as it is (POSIX).
\<close>

fun universal_newlines :: "string \<Rightarrow> string" where
  "universal_newlines [] = []"
| "universal_newlines [c] = [if c = CR then LF else c]"
| "universal_newlines (c # d # cs) =
     (if c = CR \<and> d = LF then LF # universal_newlines cs
      else (if c = CR then LF else c) # universal_newlines (d # cs))"

text \<open>\<open>for line in f\<close>: the lines of a text, each with its \<open>\n\<close>; the last may have none.\<close>

fun file_lines :: "string \<Rightarrow> string list" where
  "file_lines [] = []"
| "file_lines (c # cs) =
     (if c = LF then [LF] # file_lines cs
      else (case file_lines cs of [] \<Rightarrow> [[c]] | l # ls \<Rightarrow> (c # l) # ls))"

definition read_lines :: "string \<Rightarrow> string list" where
  "read_lines content = file_lines (universal_newlines content)"

section \<open>\<open>load_blocklist\<close>\<close>

definition load_step :: "string \<Rightarrow> string set \<Rightarrow> string set" where
  "load_step line blocked_words =
     (let word = lower (strip line) in
      if word \<noteq> [] then
        (if CHR '' '' \<notin> set word then insert word blocked_words else blocked_words)
      else blocked_words)"

fun load_loop :: "string list \<Rightarrow> string set \<Rightarrow> string set" where
  "load_loop [] blocked_words = blocked_words"
| "load_loop (line # rest) blocked_words = load_loop rest (load_step line blocked_words)"

definition load_blocklist :: "filesystem \<Rightarrow> path \<Rightarrow> error + string set" where
  "load_blocklist fs blocklist_path =
     (case files fs blocklist_path of
        None \<Rightarrow> Inl OSError
      | Some content \<Rightarrow> Inr (load_loop (read_lines content) {}))"

section \<open>\<open>filter_wordlist\<close>\<close>

record filter_state =
  outfile :: string
  kept_count :: int
  removed_count :: int
  removed_words :: "string list"

definition filter_init :: filter_state where
  "filter_init = \<lparr>outfile = [], kept_count = 0, removed_count = 0, removed_words = []\<rparr>"

definition filter_step :: "string set \<Rightarrow> string \<Rightarrow> filter_state \<Rightarrow> filter_state" where
  "filter_step blocked_words line st =
     (let word = strip line in
      if lower word \<notin> blocked_words
      then st\<lparr>outfile := outfile st @ word @ [LF], kept_count := kept_count st + 1\<rparr>
      else st\<lparr>removed_count := removed_count st + 1,
              removed_words := removed_words st @ [word]\<rparr>)"

fun filter_loop :: "string set \<Rightarrow> string list \<Rightarrow> filter_state \<Rightarrow> filter_state" where
  "filter_loop blocked_words [] st = st"
| "filter_loop blocked_words (line # rest) st =
     filter_loop blocked_words rest (filter_step blocked_words line st)"

text \<open>
  The input is opened first, then the output is opened for writing, which creates or
  truncates it; the lines are read after that, so an output path equal to the input
  path leaves nothing to read.
\<close>

definition filter_wordlist ::
  "filesystem \<Rightarrow> path \<Rightarrow> path \<Rightarrow> string set \<Rightarrow> error + (filesystem \<times> int \<times> int \<times> string list)" where
  "filter_wordlist fs input_path output_path blocked_words =
     (case files fs input_path of
        None \<Rightarrow> Inl OSError
      | Some _ \<Rightarrow>
          if output_path \<in> locked fs then Inl OSError
          else
            (let opened = (files fs)(output_path \<mapsto> []);
                 content = (case opened input_path of None \<Rightarrow> [] | Some t \<Rightarrow> t);
                 st = filter_loop blocked_words (read_lines content) filter_init
             in Inr (fs\<lparr>files := opened(output_path \<mapsto> outfile st)\<rparr>,
                     kept_count st, removed_count st, removed_words st)))"

section \<open>Example file systems\<close>

text \<open>The scenario of the specification: a blocklist with a phrase, a word list with mixed case.\<close>

definition scenario_fs :: filesystem where
  "scenario_fs =
     \<lparr>files = [''blocklist.txt'' \<mapsto> ''cat\<newline>ball gag\<newline>'',
               ''all.txt'' \<mapsto> ''cat\<newline>Cat\<newline>ball gag\<newline>ball\<newline>dog\<newline>''],
      locked = {}\<rparr>"

text \<open>A capitalised blocklist entry and its three casings in the word list.\<close>

definition apple_fs :: filesystem where
  "apple_fs =
     \<lparr>files = [''blocklist.txt'' \<mapsto> ''Apple\<newline>'',
               ''all.txt'' \<mapsto> ''apple\<newline>APPLE\<newline>Apple\<newline>pear\<newline>''],
      locked = {}\<rparr>"

text \<open>A blocklist holding only a phrase, and the words of the phrase as input.\<close>

definition phrase_fs :: filesystem where
  "phrase_fs =
     \<lparr>files = [''blocklist.txt'' \<mapsto> ''ball gag\<newline>'',
               ''all.txt'' \<mapsto> ''ball\<newline>gag\<newline>''],
      locked = {}\<rparr>"

text \<open>A word list whose lines carry leading and trailing blanks, and a blank line.\<close>

definition padded_fs :: filesystem where
  "padded_fs =
     \<lparr>files = [''blocklist.txt'' \<mapsto> ''cat\<newline>'',
               ''all.txt'' \<mapsto> '' dog\<newline>  \<newline>Cat \<newline>''],
      locked = {}\<rparr>"

text \<open>A word list of one line with a leading blank.\<close>

definition indented_fs :: filesystem where
  "indented_fs = \<lparr>files = [''all.txt'' \<mapsto> '' dog\<newline>''], locked = {}\<rparr>"

section \<open>Evaluating the text operations\<close>

lemmas text_eval =
  LF_def CR_def isspace_def lower_char_def lower_def lstrip_def rstrip_def strip_def
  char_of_def bit_0 read_lines_def

section \<open>Lines and stripping\<close>

lemma LF_neq_CR: "LF \<noteq> CR" "CR \<noteq> LF"
  by (simp_all add: LF_def CR_def)

lemma isspace_LF: "isspace LF"
  by (simp add: isspace_def LF_def)

lemma universal_newlines_no_CR: "CR \<notin> set (universal_newlines s)"
  by (induction s rule: universal_newlines.induct) (auto simp: LF_neq_CR)

lemma universal_newlines_id: "CR \<notin> set s \<Longrightarrow> universal_newlines s = s"
  by (induction s rule: universal_newlines.induct) auto

lemma file_lines_append_LF:
  "LF \<notin> set w \<Longrightarrow> file_lines (w @ LF # rest) = (w @ [LF]) # file_lines rest"
  by (induction w) auto

lemma file_lines_concat:
  "\<forall>w\<in>set ws. LF \<notin> set w \<Longrightarrow>
     file_lines (concat (map (\<lambda>w. w @ [LF]) ws)) = map (\<lambda>w. w @ [LF]) ws"
  by (induction ws) (simp_all add: file_lines_append_LF)

lemma file_lines_body:
  "l \<in> set (file_lines s) \<Longrightarrow> l \<noteq> [] \<and> LF \<notin> set (butlast l)"
proof (induction s arbitrary: l)
  case Nil
  then show ?case by simp
next
  case (Cons c cs)
  show ?case
  proof (cases "c = LF")
    case True
    with Cons show ?thesis by auto
  next
    case False
    show ?thesis
    proof (cases "file_lines cs")
      case Nil
      with False Cons.prems show ?thesis by simp
    next
      case (Cons m ms)
      with False Cons.prems have "l = c # m \<or> l \<in> set ms" by simp
      then show ?thesis
      proof
        assume "l = c # m"
        moreover have "m \<noteq> [] \<and> LF \<notin> set (butlast m)"
          using Cons.IH [of m] Cons by simp
        ultimately show ?thesis using False by simp
      next
        assume "l \<in> set ms"
        then show ?thesis using Cons.IH [of l] Cons by simp
      qed
    qed
  qed
qed

lemma concat_file_lines: "concat (file_lines s) = s"
  by (induction s) (auto split: list.splits)

lemma set_strip: "set (strip s) \<subseteq> set s"
proof -
  have "set (rev (dropWhile isspace (rev t))) \<subseteq> set t" for t
    using set_dropWhileD [of _ isspace "rev t"] by auto
  moreover have "set (dropWhile isspace s) \<subseteq> set s"
    using set_dropWhileD [of _ isspace s] by auto
  ultimately show ?thesis
    unfolding strip_def rstrip_def lstrip_def by blast
qed

lemma rstrip_append_space: "list_all isspace ws \<Longrightarrow> rstrip (xs @ ws) = rstrip xs"
  unfolding rstrip_def
  by (induction ws rule: rev_induct) simp_all

lemma rstrip_Nil: "rstrip [] = []"
  by (simp add: rstrip_def)

lemma rstrip_snoc: "rstrip (xs @ [c]) = (if isspace c then rstrip xs else xs @ [c])"
  by (simp add: rstrip_def)

lemma lstrip_Nil: "lstrip [] = []"
  by (simp add: lstrip_def)

lemma lstrip_Cons: "lstrip (c # xs) = (if isspace c then lstrip xs else c # xs)"
  by (simp add: lstrip_def)

lemma rstrip_split: "t = rstrip t @ rev (takeWhile isspace (rev t))"
proof -
  have "rev (rev t) = rev (takeWhile isspace (rev t) @ dropWhile isspace (rev t))"
    by (simp only: takeWhile_dropWhile_id)
  then show ?thesis
    unfolding rev_append rev_rev_ident rstrip_def .
qed

lemma takeWhile_all: "list_all P (takeWhile P xs)"
  by (induction xs) simp_all

lemma strip_decomp:
  "s = takeWhile isspace s @ strip s @ rev (takeWhile isspace (rev (lstrip s)))"
proof -
  have "s = takeWhile isspace s @ lstrip s"
    by (simp add: lstrip_def)
  also have "lstrip s = strip s @ rev (takeWhile isspace (rev (lstrip s)))"
    unfolding strip_def by (rule rstrip_split)
  finally show ?thesis .
qed

lemma rstrip_last: "rstrip t \<noteq> [] \<Longrightarrow> \<not> isspace (last (rstrip t))"
  by (induction t rule: rev_induct) (auto simp: rstrip_Nil rstrip_snoc split: if_splits)

lemma rstrip_hd: "rstrip t \<noteq> [] \<Longrightarrow> hd (rstrip t) = hd t"
  using rstrip_split [of t] by (metis hd_append2)

lemma lstrip_hd: "lstrip s \<noteq> [] \<Longrightarrow> \<not> isspace (hd (lstrip s))"
  unfolding lstrip_def by (rule hd_dropWhile)

lemma strip_ends:
  "strip s \<noteq> [] \<Longrightarrow> \<not> isspace (hd (strip s)) \<and> \<not> isspace (last (strip s))"
proof -
  assume ne: "strip s \<noteq> []"
  then have "lstrip s \<noteq> []"
    by (auto simp: strip_def rstrip_Nil)
  then have "\<not> isspace (hd (lstrip s))" by (rule lstrip_hd)
  moreover have "hd (strip s) = hd (lstrip s)"
    using ne unfolding strip_def by (rule rstrip_hd)
  moreover have "\<not> isspace (last (strip s))"
    using ne unfolding strip_def by (rule rstrip_last)
  ultimately show ?thesis by simp
qed

lemma strip_fixed:
  assumes "w \<noteq> [] \<Longrightarrow> \<not> isspace (hd w) \<and> \<not> isspace (last w)"
  shows "strip w = w"
proof (cases "w = []")
  case True
  then show ?thesis by (simp add: strip_def lstrip_Nil rstrip_Nil)
next
  case False
  with assms have h: "\<not> isspace (hd w)" and l: "\<not> isspace (last w)" by simp_all
  from False h have "lstrip w = w"
    by (cases w) (simp_all add: lstrip_Cons)
  moreover from False l have "rstrip w = w"
    by (cases w rule: rev_cases) (simp_all add: rstrip_snoc)
  ultimately show ?thesis by (simp add: strip_def)
qed

lemma strip_idem: "strip (strip s) = strip s"
  by (rule strip_fixed) (rule strip_ends)

lemma lstrip_all_space: "list_all isspace s \<Longrightarrow> lstrip s = []"
  by (induction s) (simp_all add: lstrip_Nil lstrip_Cons)

lemma strip_all_space: "list_all isspace s \<Longrightarrow> strip s = []"
  by (simp add: strip_def lstrip_all_space rstrip_Nil)

lemma lstrip_append_space:
  "list_all isspace ws \<Longrightarrow> lstrip (xs @ ws) = (if lstrip xs = [] then [] else lstrip xs @ ws)"
  by (induction xs) (simp_all add: lstrip_Nil lstrip_Cons lstrip_all_space)

lemma strip_append_space: "list_all isspace ws \<Longrightarrow> strip (xs @ ws) = strip xs"
  by (simp add: strip_def lstrip_append_space rstrip_append_space rstrip_Nil)

lemma strip_line_no_LF:
  assumes "l \<in> set (file_lines s)"
  shows "LF \<notin> set (strip l)"
proof -
  from assms have ne: "l \<noteq> []" and body: "LF \<notin> set (butlast l)"
    using file_lines_body by blast+
  from ne have l: "l = butlast l @ [last l]" by simp
  show ?thesis
  proof (cases "last l = LF")
    case True
    with l have "strip l = strip (butlast l)"
      using strip_append_space [of "[LF]" "butlast l"] by (simp add: isspace_LF)
    with body show ?thesis using set_strip [of "butlast l"] by auto
  next
    case False
    with l body have "LF \<notin> set l"
      by (metis Un_iff empty_iff empty_set set_ConsD set_append)
    then show ?thesis using set_strip [of l] by auto
  qed
qed

lemma strip_line_no_CR:
  "l \<in> set (read_lines content) \<Longrightarrow> CR \<notin> set (strip l)"
proof -
  assume "l \<in> set (read_lines content)"
  then have "set l \<subseteq> set (concat (file_lines (universal_newlines content)))"
    unfolding read_lines_def by auto
  then have "CR \<notin> set l"
    using universal_newlines_no_CR [of content] by (auto simp only: concat_file_lines)
  then show ?thesis using set_strip [of l] by auto
qed

section \<open>The loops in closed form\<close>

lemma load_loop_eq:
  "load_loop ls S =
     S \<union> {w. \<exists>l\<in>set ls. w = lower (strip l) \<and> w \<noteq> [] \<and> CHR '' '' \<notin> set w}"
  by (induction ls arbitrary: S) (auto simp: load_step_def Let_def)

lemma filter_loop_eq:
  "filter_loop B ls st =
     st\<lparr>outfile := outfile st @
            concat (map (\<lambda>w. w @ [LF]) (filter (\<lambda>w. lower w \<notin> B) (map strip ls))),
        kept_count := kept_count st + int (length (filter (\<lambda>w. lower w \<notin> B) (map strip ls))),
        removed_count := removed_count st + int (length (filter (\<lambda>w. lower w \<in> B) (map strip ls))),
        removed_words := removed_words st @ filter (\<lambda>w. lower w \<in> B) (map strip ls)\<rparr>"
  by (induction ls arbitrary: st) (simp_all add: filter_step_def Let_def)

lemma filter_wordlist_run:
  assumes "files fs input_path = Some content"
    and "output_path \<notin> locked fs"
    and "input_path \<noteq> output_path"
  shows "filter_wordlist fs input_path output_path B =
     Inr (fs\<lparr>files := (files fs)(output_path \<mapsto>
              concat (map (\<lambda>w. w @ [LF])
                (filter (\<lambda>w. lower w \<notin> B) (map strip (read_lines content)))))\<rparr>,
          int (length (filter (\<lambda>w. lower w \<notin> B) (map strip (read_lines content)))),
          int (length (filter (\<lambda>w. lower w \<in> B) (map strip (read_lines content)))),
          filter (\<lambda>w. lower w \<in> B) (map strip (read_lines content)))"
  using assms
  by (simp add: filter_wordlist_def Let_def filter_loop_eq filter_init_def)

lemma kept_words_no_newline:
  "\<forall>w\<in>set (filter P (map strip (read_lines content))). LF \<notin> set w \<and> CR \<notin> set w"
  using strip_line_no_LF strip_line_no_CR by (auto simp: read_lines_def)

lemma read_lines_written:
  "read_lines (concat (map (\<lambda>w. w @ [LF]) (filter P (map strip (read_lines content))))) =
     map (\<lambda>w. w @ [LF]) (filter P (map strip (read_lines content)))"
proof -
  let ?ws = "filter P (map strip (read_lines content))"
  have nl: "\<forall>w\<in>set ?ws. LF \<notin> set w \<and> CR \<notin> set w"
    by (rule kept_words_no_newline)
  then have "CR \<notin> set (concat (map (\<lambda>w. w @ [LF]) ?ws))"
    by (auto simp: LF_neq_CR)
  then have "universal_newlines (concat (map (\<lambda>w. w @ [LF]) ?ws)) = concat (map (\<lambda>w. w @ [LF]) ?ws)"
    by (rule universal_newlines_id)
  moreover have "file_lines (concat (map (\<lambda>w. w @ [LF]) ?ws)) = map (\<lambda>w. w @ [LF]) ?ws"
    using nl by (intro file_lines_concat) blast
  ultimately show ?thesis by (simp add: read_lines_def)
qed

section \<open>Lowercasing and stripping twice\<close>

lemma lower_char_idem: "lower_char (lower_char c) = lower_char c"
  unfolding lower_char_def Let_def by auto

lemma lower_idem: "lower (lower s) = lower s"
  by (simp add: lower_def lower_char_idem)

lemma strip_written: "strip (strip l @ [LF]) = strip l"
  using strip_append_space [of "[LF]" "strip l"] by (simp add: isspace_LF strip_idem)

lemma map_strip_written:
  "map strip (map (\<lambda>w. w @ [LF]) (filter P (map strip ls))) = filter P (map strip ls)"
  by (induction ls) (simp_all add: strip_written)

lemma lstrip_prepend_space: "list_all isspace ws \<Longrightarrow> lstrip (ws @ xs) = lstrip xs"
  by (induction ws) (simp_all add: lstrip_Cons)

lemma rstrip_prepend: "rstrip ys \<noteq> [] \<Longrightarrow> rstrip (xs @ ys) = xs @ rstrip ys"
proof (induction ys rule: rev_induct)
  case Nil
  then show ?case by (simp add: rstrip_Nil)
next
  case (snoc y ys)
  show ?case
  proof (cases "isspace y")
    case True
    with snoc show ?thesis
      using rstrip_snoc [of ys y] rstrip_snoc [of "xs @ ys" y] by simp
  next
    case False
    then show ?thesis
      using rstrip_snoc [of ys y] rstrip_snoc [of "xs @ ys" y] by simp
  qed
qed

lemma rstrip_all_space: "list_all isspace s \<Longrightarrow> rstrip s = []"
  by (induction s rule: rev_induct) (simp_all add: rstrip_Nil rstrip_snoc)

lemma strip_both_ends: "strip s = lstrip (rstrip s)"
proof (cases "strip s = []")
  case True
  have s: "s = takeWhile isspace s @ lstrip s" by (simp add: lstrip_def)
  from True have "lstrip s = rev (takeWhile isspace (rev (lstrip s)))"
    using rstrip_split [of "lstrip s"] by (simp add: strip_def)
  then have "list_all isspace (lstrip s)"
    by (metis takeWhile_all list_all_rev)
  then have "list_all isspace s"
    using s takeWhile_all [of isspace s] by (metis list_all_append)
  then show ?thesis
    using True by (simp add: rstrip_all_space lstrip_Nil)
next
  case False
  have s: "s = takeWhile isspace s @ lstrip s" by (simp add: lstrip_def)
  from False have ne: "rstrip (lstrip s) \<noteq> []" by (simp add: strip_def)
  then have "rstrip s = takeWhile isspace s @ rstrip (lstrip s)"
    using rstrip_prepend [of "lstrip s" "takeWhile isspace s"] s by simp
  moreover have "list_all isspace (takeWhile isspace s)"
    by (rule takeWhile_all)
  ultimately have "lstrip (rstrip s) = lstrip (strip s)"
    using lstrip_prepend_space [of "takeWhile isspace s" "strip s"]
    by (simp add: strip_def)
  also have "\<dots> = strip s"
    using strip_ends [OF False] False by (cases "strip s") (simp_all add: lstrip_Cons)
  finally show ?thesis by simp
qed

section \<open>Further facts on the loader and on stripped lines\<close>

lemma load_loop_skips_phrases:
  "load_loop (filter (\<lambda>l. CHR '' '' \<notin> set (lower (strip l))) ls) S = load_loop ls S"
  unfolding load_loop_eq by auto

lemma strip_no_margin: "lstrip (strip s) = strip s \<and> rstrip (strip s) = strip s"
proof (cases "strip s = []")
  case True
  then show ?thesis by (simp add: lstrip_Nil rstrip_Nil)
next
  case False
  from strip_ends [OF False] have h: "\<not> isspace (hd (strip s))"
    and l: "\<not> isspace (last (strip s))" by simp_all
  from False h have "lstrip (strip s) = strip s"
    by (cases "strip s") (simp_all add: lstrip_Cons)
  moreover from False l have "rstrip (strip s) = strip s"
    by (cases "strip s" rule: rev_cases) (simp_all add: rstrip_snoc)
  ultimately show ?thesis by simp
qed

lemma kept_lines_stripped:
  "map (\<lambda>w. w @ [LF]) (filter (\<lambda>w. lower w \<notin> B) (map strip ls)) =
   map (\<lambda>line. strip line @ [LF]) (filter (\<lambda>line. lower (strip line) \<notin> B) ls)"
  by (induction ls) simp_all

lemma strip_Nil_iff: "strip s = [] \<longleftrightarrow> list_all isspace s"
proof
  assume e: "strip s = []"
  have s: "s = takeWhile isspace s @ lstrip s" by (simp add: lstrip_def)
  from e have "lstrip s = rev (takeWhile isspace (rev (lstrip s)))"
    using rstrip_split [of "lstrip s"] by (simp add: strip_def)
  then have "list_all isspace (lstrip s)"
    by (metis takeWhile_all list_all_rev)
  then show "list_all isspace s"
    using s takeWhile_all [of isspace s] by (metis list_all_append)
next
  assume "list_all isspace s"
  then show "strip s = []" by (rule strip_all_space)
qed

lemma removed_words_stripped:
  "filter (\<lambda>w. lower w \<in> B) (map strip ls) =
   map strip (filter (\<lambda>line. lower (strip line) \<in> B) ls)"
  by (induction ls) simp_all

lemma blank_lines_counted:
  assumes "[] \<notin> B"
  shows "length (filter (\<lambda>l. l = [LF])
           (map (\<lambda>line. strip line @ [LF]) (filter (\<lambda>line. lower (strip line) \<notin> B) ls))) =
         length (filter (list_all isspace) ls)"
proof (induction ls)
  case Nil
  then show ?case by simp
next
  case (Cons l ls)
  show ?case
  proof (cases "list_all isspace l")
    case True
    then have "strip l = []" by (rule strip_all_space)
    with assms True Cons show ?thesis by (simp add: lower_def)
  next
    case False
    then have "strip l \<noteq> []" by (simp add: strip_Nil_iff)
    with False Cons show ?thesis by simp
  qed
qed

section \<open>Properties of the loader and the filter\<close>

text \<open>
  C1: for every input word list and blocklist set, every input word (a line of the
  input, stripped as \<open>filter_wordlist\<close> strips it) whose lowercase form is not in the
  blocklist set appears in the output, unchanged, in its original relative position
  among the kept words: the lines of the output file are exactly the kept words, in
  input order, each with its newline. In particular an input line that is a word with
  no blanks around it, followed by its newline, is a line of the output as it stands.
\<close>

theorem kept_words_in_output:
  assumes "files fs input_path = Some content"
    and "output_path \<notin> locked fs"
    and "input_path \<noteq> output_path"
  shows "\<exists>fs' kept removed removed_ws out.
     filter_wordlist fs input_path output_path blocked_words = Inr (fs', kept, removed, removed_ws) \<and>
     files fs' output_path = Some out \<and>
     read_lines out =
       map (\<lambda>w. w @ [LF]) (filter (\<lambda>w. lower w \<notin> blocked_words) (map strip (read_lines content))) \<and>
     (\<forall>w. w @ [LF] \<in> set (read_lines content) \<and> strip w = w \<and> lower w \<notin> blocked_words \<longrightarrow>
          w @ [LF] \<in> set (read_lines out))"
proof -
  let ?ws = "filter (\<lambda>w. lower w \<notin> blocked_words) (map strip (read_lines content))"
  have "w @ [LF] \<in> set (map (\<lambda>w. w @ [LF]) ?ws)"
    if "w @ [LF] \<in> set (read_lines content)" and "strip w = w" and "lower w \<notin> blocked_words" for w
  proof -
    have "strip (w @ [LF]) = w"
      using strip_append_space [of "[LF]" w] that(2) by (simp add: isspace_LF)
    with that(1) have "w \<in> set (map strip (read_lines content))"
      by (metis image_eqI set_map)
    with that(3) have "w \<in> set ?ws" by simp
    then show ?thesis by simp
  qed
  then show ?thesis
    unfolding filter_wordlist_run [OF assms]
    by (simp add: read_lines_written)
qed

text \<open>
  The theorem at a padded word list filtered against \<open>{cat}\<close>.
\<close>

theorem kept_words_in_output_witness:
  "files padded_fs ''all.txt'' = Some '' dog\<newline>  \<newline>Cat \<newline>'' \<and>
   ''all_filtered.txt'' \<notin> locked padded_fs \<and>
   ''all.txt'' \<noteq> ''all_filtered.txt'' \<and>
   (\<exists>fs' kept removed removed_ws out.
     filter_wordlist padded_fs ''all.txt'' ''all_filtered.txt'' {''cat''} =
       Inr (fs', kept, removed, removed_ws) \<and>
     files fs' ''all_filtered.txt'' = Some out \<and>
     read_lines out = [''dog\<newline>'', ''\<newline>''])"
proof -
  have inp: "files padded_fs ''all.txt'' = Some '' dog\<newline>  \<newline>Cat \<newline>''"
    by (simp add: padded_fs_def)
  have wr: "''all_filtered.txt'' \<notin> locked padded_fs"
    by (simp add: padded_fs_def)
  have ne: "''all.txt'' \<noteq> ''all_filtered.txt''"
    by simp
  have ws: "map (\<lambda>w. w @ [LF]) (filter (\<lambda>w. lower w \<notin> {''cat''})
      (map strip (read_lines '' dog\<newline>  \<newline>Cat \<newline>''))) = [''dog\<newline>'', ''\<newline>'']"
    by (simp add: text_eval)
  from kept_words_in_output [OF inp wr ne, of "{''cat''}"]
  obtain fs' kept removed removed_ws out where
    "filter_wordlist padded_fs ''all.txt'' ''all_filtered.txt'' {''cat''} =
       Inr (fs', kept, removed, removed_ws)"
    "files fs' ''all_filtered.txt'' = Some out"
    "read_lines out = [''dog\<newline>'', ''\<newline>'']"
    unfolding ws by (elim exE conjE)
  then have "\<exists>fs' kept removed removed_ws out.
     filter_wordlist padded_fs ''all.txt'' ''all_filtered.txt'' {''cat''} =
       Inr (fs', kept, removed, removed_ws) \<and>
     files fs' ''all_filtered.txt'' = Some out \<and>
     read_lines out = [''dog\<newline>'', ''\<newline>'']"
    by (intro exI conjI)
  with inp wr ne show ?thesis by (intro conjI)
qed

text \<open>
  C2: for every input word list and blocklist set, every input word whose lowercase
  form is in the blocklist set is absent from the output file, is counted in the
  removed count, and is appended, in its original casing and in input order, to the
  removed words. In particular the blocklist entry \<open>Apple\<close> is loaded as \<open>apple\<close> and
  removes the input entries \<open>apple\<close>, \<open>APPLE\<close> and \<open>Apple\<close>.
\<close>

theorem blocked_words_removed:
  assumes "files fs input_path = Some content"
    and "output_path \<notin> locked fs"
    and "input_path \<noteq> output_path"
  shows "(\<exists>fs' kept removed removed_ws out.
     filter_wordlist fs input_path output_path blocked_words = Inr (fs', kept, removed, removed_ws) \<and>
     files fs' output_path = Some out \<and>
     removed_ws = filter (\<lambda>w. lower w \<in> blocked_words) (map strip (read_lines content)) \<and>
     removed = int (length removed_ws) \<and>
     (\<forall>w. lower w \<in> blocked_words \<longrightarrow> w @ [LF] \<notin> set (read_lines out))) \<and>
   load_blocklist apple_fs ''blocklist.txt'' = Inr {''apple''} \<and>
   filter_wordlist apple_fs ''all.txt'' ''all_filtered.txt'' {''apple''} =
     Inr (apple_fs\<lparr>files := (files apple_fs)(''all_filtered.txt'' \<mapsto> ''pear\<newline>'')\<rparr>,
          1, 3, [''apple'', ''APPLE'', ''Apple''])"
proof -
  have general: "\<exists>fs' kept removed removed_ws out.
     filter_wordlist fs input_path output_path blocked_words = Inr (fs', kept, removed, removed_ws) \<and>
     files fs' output_path = Some out \<and>
     removed_ws = filter (\<lambda>w. lower w \<in> blocked_words) (map strip (read_lines content)) \<and>
     removed = int (length removed_ws) \<and>
     (\<forall>w. lower w \<in> blocked_words \<longrightarrow> w @ [LF] \<notin> set (read_lines out))"
    unfolding filter_wordlist_run [OF assms]
    by (auto simp: read_lines_written)
  have inp: "files apple_fs ''all.txt'' = Some ''apple\<newline>APPLE\<newline>Apple\<newline>pear\<newline>''"
    by (simp add: apple_fs_def)
  have wr: "''all_filtered.txt'' \<notin> locked apple_fs"
    by (simp add: apple_fs_def)
  have ne: "''all.txt'' \<noteq> ''all_filtered.txt''"
    by simp
  have load: "load_blocklist apple_fs ''blocklist.txt'' = Inr {''apple''}"
    by (simp add: load_blocklist_def apple_fs_def load_step_def text_eval)
  have run: "filter_wordlist apple_fs ''all.txt'' ''all_filtered.txt'' {''apple''} =
     Inr (apple_fs\<lparr>files := (files apple_fs)(''all_filtered.txt'' \<mapsto> ''pear\<newline>'')\<rparr>,
          1, 3, [''apple'', ''APPLE'', ''Apple''])"
    unfolding filter_wordlist_run [OF inp wr ne] by (simp add: text_eval)
  from general load run show ?thesis by (intro conjI)
qed

text \<open>
  The theorem at a padded word list filtered against \<open>{cat}\<close>: \<open>Cat\<close> is removed.
\<close>

theorem blocked_words_removed_witness:
  "files padded_fs ''all.txt'' = Some '' dog\<newline>  \<newline>Cat \<newline>'' \<and>
   ''all_filtered.txt'' \<notin> locked padded_fs \<and>
   ''all.txt'' \<noteq> ''all_filtered.txt'' \<and>
   (\<exists>fs' kept out.
     filter_wordlist padded_fs ''all.txt'' ''all_filtered.txt'' {''cat''} =
       Inr (fs', kept, 1, [''Cat'']) \<and>
     files fs' ''all_filtered.txt'' = Some out \<and>
     ''Cat\<newline>'' \<notin> set (read_lines out))"
proof -
  have inp: "files padded_fs ''all.txt'' = Some '' dog\<newline>  \<newline>Cat \<newline>''"
    by (simp add: padded_fs_def)
  have wr: "''all_filtered.txt'' \<notin> locked padded_fs"
    by (simp add: padded_fs_def)
  have ne: "''all.txt'' \<noteq> ''all_filtered.txt''"
    by simp
  have ws: "filter (\<lambda>w. lower w \<in> {''cat''})
      (map strip (read_lines '' dog\<newline>  \<newline>Cat \<newline>'')) = [''Cat'']"
    by (simp add: text_eval)
  have low: "lower ''Cat'' \<in> {''cat''}"
    by (simp add: text_eval)
  from blocked_words_removed [OF inp wr ne, of "{''cat''}"]
  obtain fs' kept removed removed_ws out where
    r: "filter_wordlist padded_fs ''all.txt'' ''all_filtered.txt'' {''cat''} =
          Inr (fs', kept, removed, removed_ws)"
    and o: "files fs' ''all_filtered.txt'' = Some out"
    and rw: "removed_ws = [''Cat'']"
    and rc: "removed = int (length removed_ws)"
    and ab: "\<forall>w. lower w \<in> {''cat''} \<longrightarrow> w @ [LF] \<notin> set (read_lines out)"
    unfolding ws by blast
  from ab low have "''Cat'' @ [LF] \<notin> set (read_lines out)" by blast
  then have "''Cat\<newline>'' \<notin> set (read_lines out)" by (simp add: LF_def)
  with r o rw rc inp wr ne show ?thesis by auto
qed

text \<open>
  C3: for every blocklist file, the loader strips and lowercases each line, skips
  empty results and skips every entry containing a space, so the set holds only
  non-empty, lowercase, space-free words. A line whose entry contains a space is not in
  the set and the set is the one loaded from the file without such lines, so a
  multi-word entry removes no input word: the blocklist \<open>ball gag\<close> loads as the empty
  set and the input words \<open>ball\<close> and \<open>gag\<close> are both kept.
\<close>

theorem blocklist_single_words:
  assumes "files fs blocklist_path = Some content"
  shows "(\<exists>blocked.
     load_blocklist fs blocklist_path = Inr blocked \<and>
     blocked = {w. \<exists>l\<in>set (read_lines content).
                  w = lower (strip l) \<and> w \<noteq> [] \<and> CHR '' '' \<notin> set w} \<and>
     (\<forall>w\<in>blocked. w \<noteq> [] \<and> lower w = w \<and> CHR '' '' \<notin> set w) \<and>
     (\<forall>l\<in>set (read_lines content).
        CHR '' '' \<in> set (lower (strip l)) \<longrightarrow> lower (strip l) \<notin> blocked) \<and>
     blocked =
       load_loop (filter (\<lambda>l. CHR '' '' \<notin> set (lower (strip l))) (read_lines content)) {}) \<and>
   load_blocklist phrase_fs ''blocklist.txt'' = Inr {} \<and>
   filter_wordlist phrase_fs ''all.txt'' ''all_filtered.txt'' {} =
     Inr (phrase_fs\<lparr>files := (files phrase_fs)
            (''all_filtered.txt'' \<mapsto> ''ball\<newline>gag\<newline>'')\<rparr>, 2, 0, [])"
proof -
  have general: "\<exists>blocked.
     load_blocklist fs blocklist_path = Inr blocked \<and>
     blocked = {w. \<exists>l\<in>set (read_lines content).
                  w = lower (strip l) \<and> w \<noteq> [] \<and> CHR '' '' \<notin> set w} \<and>
     (\<forall>w\<in>blocked. w \<noteq> [] \<and> lower w = w \<and> CHR '' '' \<notin> set w) \<and>
     (\<forall>l\<in>set (read_lines content).
        CHR '' '' \<in> set (lower (strip l)) \<longrightarrow> lower (strip l) \<notin> blocked) \<and>
     blocked =
       load_loop (filter (\<lambda>l. CHR '' '' \<notin> set (lower (strip l))) (read_lines content)) {}"
  proof -
    let ?B = "{w. \<exists>l\<in>set (read_lines content).
                  w = lower (strip l) \<and> w \<noteq> [] \<and> CHR '' '' \<notin> set w}"
    have l: "load_blocklist fs blocklist_path = Inr ?B"
      using assms by (simp add: load_blocklist_def load_loop_eq)
    have m: "\<forall>w\<in>?B. w \<noteq> [] \<and> lower w = w \<and> CHR '' '' \<notin> set w"
      using lower_idem by blast
    have p: "\<forall>l\<in>set (read_lines content).
        CHR '' '' \<in> set (lower (strip l)) \<longrightarrow> lower (strip l) \<notin> ?B"
      by blast
    have f: "?B =
       load_loop (filter (\<lambda>l. CHR '' '' \<notin> set (lower (strip l))) (read_lines content)) {}"
      unfolding load_loop_skips_phrases by (simp add: load_loop_eq)
    from l m p f show ?thesis by blast
  qed
  have inp: "files phrase_fs ''all.txt'' = Some ''ball\<newline>gag\<newline>''"
    by (simp add: phrase_fs_def)
  have wr: "''all_filtered.txt'' \<notin> locked phrase_fs"
    by (simp add: phrase_fs_def)
  have ne: "''all.txt'' \<noteq> ''all_filtered.txt''"
    by simp
  have load: "load_blocklist phrase_fs ''blocklist.txt'' = Inr {}"
    by (simp add: load_blocklist_def phrase_fs_def load_step_def text_eval)
  have run: "filter_wordlist phrase_fs ''all.txt'' ''all_filtered.txt'' {} =
     Inr (phrase_fs\<lparr>files := (files phrase_fs)
            (''all_filtered.txt'' \<mapsto> ''ball\<newline>gag\<newline>'')\<rparr>, 2, 0, [])"
    unfolding filter_wordlist_run [OF inp wr ne] by (simp add: text_eval)
  from general load run show ?thesis by (intro conjI)
qed

text \<open>
  The theorem at the scenario's blocklist: only \<open>cat\<close> is loaded.
\<close>

theorem blocklist_single_words_witness:
  "files scenario_fs ''blocklist.txt'' = Some ''cat\<newline>ball gag\<newline>'' \<and>
   load_blocklist scenario_fs ''blocklist.txt'' =
     Inr (load_loop (filter (\<lambda>l. CHR '' '' \<notin> set (lower (strip l)))
            (read_lines ''cat\<newline>ball gag\<newline>'')) {}) \<and>
   load_loop (filter (\<lambda>l. CHR '' '' \<notin> set (lower (strip l)))
     (read_lines ''cat\<newline>ball gag\<newline>'')) {} = {''cat''}"
proof -
  have inp: "files scenario_fs ''blocklist.txt'' = Some ''cat\<newline>ball gag\<newline>''"
    by (simp add: scenario_fs_def)
  have ev: "load_loop (filter (\<lambda>l. CHR '' '' \<notin> set (lower (strip l)))
      (read_lines ''cat\<newline>ball gag\<newline>'')) {} = {''cat''}"
    by (simp add: load_step_def text_eval)
  from blocklist_single_words [OF inp] obtain blocked where
    a: "load_blocklist scenario_fs ''blocklist.txt'' = Inr blocked" and
    b: "blocked = load_loop (filter (\<lambda>l. CHR '' '' \<notin> set (lower (strip l)))
            (read_lines ''cat\<newline>ball gag\<newline>'')) {}"
    by (elim conjE exE)
  from a b have
    "load_blocklist scenario_fs ''blocklist.txt'' =
       Inr (load_loop (filter (\<lambda>l. CHR '' '' \<notin> set (lower (strip l)))
            (read_lines ''cat\<newline>ball gag\<newline>'')) {})"
    by simp
  with inp ev show ?thesis by (intro conjI)
qed

text \<open>
  C4, as stated, fails: the output lines are not always lines of the input, character
  for character. The input line \<open>" dog"\<close> is written as \<open>"dog"\<close>, which is no line of
  the input.
\<close>

theorem output_lines_not_verbatim:
  "filter_wordlist indented_fs ''all.txt'' ''all_filtered.txt'' {} =
     Inr (indented_fs\<lparr>files := (files indented_fs)(''all_filtered.txt'' \<mapsto> ''dog\<newline>'')\<rparr>,
          1, 0, []) \<and>
   read_lines ''dog\<newline>'' = [''dog\<newline>''] \<and>
   read_lines '' dog\<newline>'' = ['' dog\<newline>''] \<and>
   \<not> subseq (read_lines ''dog\<newline>'') (read_lines '' dog\<newline>'')"
proof -
  have inp: "files indented_fs ''all.txt'' = Some '' dog\<newline>''"
    by (simp add: indented_fs_def)
  have wr: "''all_filtered.txt'' \<notin> locked indented_fs"
    by (simp add: indented_fs_def)
  have ne: "''all.txt'' \<noteq> ''all_filtered.txt''"
    by simp
  have run: "filter_wordlist indented_fs ''all.txt'' ''all_filtered.txt'' {} =
     Inr (indented_fs\<lparr>files := (files indented_fs)(''all_filtered.txt'' \<mapsto> ''dog\<newline>'')\<rparr>,
          1, 0, [])"
    unfolding filter_wordlist_run [OF inp wr ne] by (simp add: text_eval)
  have o: "read_lines ''dog\<newline>'' = [''dog\<newline>'']"
    by (simp add: text_eval)
  have i: "read_lines '' dog\<newline>'' = ['' dog\<newline>'']"
    by (simp add: text_eval)
  have n: "\<not> subseq (read_lines ''dog\<newline>'') (read_lines '' dog\<newline>'')"
    unfolding o i by simp
  from run o i n show ?thesis by (intro conjI)
qed

text \<open>
  C4, amended: for every input file and blocklist set, the sequence of lines in the
  output file is a subsequence of the sequence of input lines, each stripped of its
  leading and trailing whitespace and ended by a newline: every output line is the
  stripped form of an input line, in the same relative order, with only the removed
  lines missing. The output lines are the stripped input lines whose lowercase word is
  not in the blocklist set, the removed words are the stripped input lines whose
  lowercase word is in it, and the two together account for every input line.
\<close>

theorem output_lines_subseq_stripped:
  assumes "files fs input_path = Some content"
    and "output_path \<notin> locked fs"
    and "input_path \<noteq> output_path"
  shows "\<exists>fs' kept removed removed_ws out.
     filter_wordlist fs input_path output_path blocked_words = Inr (fs', kept, removed, removed_ws) \<and>
     files fs' output_path = Some out \<and>
     subseq (read_lines out) (map (\<lambda>line. strip line @ [LF]) (read_lines content)) \<and>
     read_lines out =
       map (\<lambda>line. strip line @ [LF])
         (filter (\<lambda>line. lower (strip line) \<notin> blocked_words) (read_lines content)) \<and>
     removed_ws =
       map strip (filter (\<lambda>line. lower (strip line) \<in> blocked_words) (read_lines content)) \<and>
     int (length (read_lines out)) + removed = int (length (read_lines content))"
proof -
  let ?out = "concat (map (\<lambda>w. w @ [LF])
       (filter (\<lambda>w. lower w \<notin> blocked_words) (map strip (read_lines content))))"
  have eq: "read_lines ?out =
       map (\<lambda>line. strip line @ [LF])
         (filter (\<lambda>line. lower (strip line) \<notin> blocked_words) (read_lines content))"
    using read_lines_written [of "\<lambda>w. lower w \<notin> blocked_words" content]
    by (simp only: kept_lines_stripped)
  have "subseq (map (\<lambda>line. strip line @ [LF])
         (filter (\<lambda>line. lower (strip line) \<notin> blocked_words) (read_lines content)))
       (map (\<lambda>line. strip line @ [LF]) (read_lines content))"
    by (intro subseq_map subseq_filter_left)
  with eq have sub: "subseq (read_lines ?out) (map (\<lambda>line. strip line @ [LF]) (read_lines content))"
    by simp
  have cnt: "length (filter (\<lambda>line. lower (strip line) \<notin> blocked_words) (read_lines content)) +
        length (filter (\<lambda>line. lower (strip line) \<in> blocked_words) (read_lines content)) =
        length (read_lines content)"
    using sum_length_filter_compl [of "\<lambda>line. lower (strip line) \<in> blocked_words" "read_lines content"]
    by simp
  have len: "int (length (read_lines ?out)) +
        int (length (filter (\<lambda>w. lower w \<in> blocked_words) (map strip (read_lines content)))) =
        int (length (read_lines content))"
    unfolding eq removed_words_stripped using cnt by simp
  show ?thesis
    unfolding filter_wordlist_run [OF assms]
    using sub eq len by (simp add: removed_words_stripped)
qed

text \<open>
  The theorem at a padded word list of three lines filtered against \<open>{cat}\<close>: two
  lines stay, in order, and \<open>Cat\<close> is the one missing.
\<close>

theorem output_lines_subseq_stripped_witness:
  "files padded_fs ''all.txt'' = Some '' dog\<newline>  \<newline>Cat \<newline>'' \<and>
   ''all_filtered.txt'' \<notin> locked padded_fs \<and>
   ''all.txt'' \<noteq> ''all_filtered.txt'' \<and>
   (\<exists>fs' kept out.
     filter_wordlist padded_fs ''all.txt'' ''all_filtered.txt'' {''cat''} =
       Inr (fs', kept, 1, [''Cat'']) \<and>
     files fs' ''all_filtered.txt'' = Some out \<and>
     subseq (read_lines out) [''dog\<newline>'', ''\<newline>'', ''Cat\<newline>''] \<and>
     read_lines out = [''dog\<newline>'', ''\<newline>''])"
proof -
  have inp: "files padded_fs ''all.txt'' = Some '' dog\<newline>  \<newline>Cat \<newline>''"
    by (simp add: padded_fs_def)
  have wr: "''all_filtered.txt'' \<notin> locked padded_fs"
    by (simp add: padded_fs_def)
  have ne: "''all.txt'' \<noteq> ''all_filtered.txt''"
    by simp
  have all: "map (\<lambda>line. strip line @ [LF]) (read_lines '' dog\<newline>  \<newline>Cat \<newline>'') =
      [''dog\<newline>'', ''\<newline>'', ''Cat\<newline>'']"
    by (simp add: text_eval)
  have ks: "map (\<lambda>line. strip line @ [LF])
         (filter (\<lambda>line. lower (strip line) \<notin> {''cat''})
            (read_lines '' dog\<newline>  \<newline>Cat \<newline>'')) = [''dog\<newline>'', ''\<newline>'']"
    by (simp add: text_eval)
  have rs: "map strip (filter (\<lambda>line. lower (strip line) \<in> {''cat''})
            (read_lines '' dog\<newline>  \<newline>Cat \<newline>'')) = [''Cat'']"
    by (simp add: text_eval)
  have n: "int (length (read_lines '' dog\<newline>  \<newline>Cat \<newline>'')) = 3"
    by (simp add: text_eval)
  from output_lines_subseq_stripped [OF inp wr ne, of "{''cat''}"]
  obtain fs' kept removed removed_ws out where
    a: "filter_wordlist padded_fs ''all.txt'' ''all_filtered.txt'' {''cat''} =
       Inr (fs', kept, removed, removed_ws)" and
    b: "files fs' ''all_filtered.txt'' = Some out" and
    c: "subseq (read_lines out) [''dog\<newline>'', ''\<newline>'', ''Cat\<newline>'']" and
    d: "read_lines out = [''dog\<newline>'', ''\<newline>'']" and
    e: "removed_ws = [''Cat'']" and
    f: "int (length (read_lines out)) + removed = 3"
    unfolding all ks rs n by (elim exE conjE)
  from f d have r: "removed = 1" by simp
  from a b c d have "\<exists>fs' kept out.
     filter_wordlist padded_fs ''all.txt'' ''all_filtered.txt'' {''cat''} =
       Inr (fs', kept, 1, [''Cat'']) \<and>
     files fs' ''all_filtered.txt'' = Some out \<and>
     subseq (read_lines out) [''dog\<newline>'', ''\<newline>'', ''Cat\<newline>''] \<and>
     read_lines out = [''dog\<newline>'', ''\<newline>'']"
    unfolding e r by (intro exI conjI)
  with inp wr ne show ?thesis by (intro conjI)
qed

text \<open>
  C5, as stated, fails: the word is not the line with only its trailing whitespace
  stripped, and leading whitespace is not preserved. For the line \<open>"  Dog"\<close> the
  filter writes \<open>"Dog"\<close>, not \<open>"  Dog"\<close>.
\<close>

theorem kept_word_loses_leading_blanks:
  "filter_step {} ''  Dog\<newline>'' filter_init =
     \<lparr>outfile = ''Dog\<newline>'', kept_count = 1, removed_count = 0, removed_words = []\<rparr> \<and>
   rstrip ''  Dog\<newline>'' @ [LF] = ''  Dog\<newline>'' \<and>
   outfile (filter_step {} ''  Dog\<newline>'' filter_init) \<noteq> rstrip ''  Dog\<newline>'' @ [LF]"
  by (simp add: filter_step_def filter_init_def text_eval)

text \<open>
  C5, amended: for every input line, the filter obtains the word by stripping the
  trailing whitespace (the newline included) and the leading whitespace from the line;
  when the word is kept it writes that word with a newline appended, otherwise it
  counts and records that word. The word is a segment of the line between blanks, so
  its original casing is preserved; its leading whitespace is not.
\<close>

theorem word_is_line_stripped_both_ends:
  "filter_step blocked_words line st =
     (if lower (lstrip (rstrip line)) \<notin> blocked_words
      then st\<lparr>outfile := outfile st @ lstrip (rstrip line) @ [LF],
              kept_count := kept_count st + 1\<rparr>
      else st\<lparr>removed_count := removed_count st + 1,
              removed_words := removed_words st @ [lstrip (rstrip line)]\<rparr>) \<and>
   (\<exists>pre suf. line = pre @ lstrip (rstrip line) @ suf \<and>
      list_all isspace pre \<and> list_all isspace suf)"
proof -
  have step: "filter_step blocked_words line st =
     (if lower (lstrip (rstrip line)) \<notin> blocked_words
      then st\<lparr>outfile := outfile st @ lstrip (rstrip line) @ [LF],
              kept_count := kept_count st + 1\<rparr>
      else st\<lparr>removed_count := removed_count st + 1,
              removed_words := removed_words st @ [lstrip (rstrip line)]\<rparr>)"
    by (simp add: filter_step_def Let_def strip_both_ends)
  have "line = takeWhile isspace line @ lstrip (rstrip line) @
      rev (takeWhile isspace (rev (lstrip line)))"
    using strip_decomp [of line] by (simp only: strip_both_ends)
  moreover have "list_all isspace (takeWhile isspace line)"
    by (rule takeWhile_all)
  moreover have "list_all isspace (rev (takeWhile isspace (rev (lstrip line))))"
    using takeWhile_all [of isspace "rev (lstrip line)"] by (simp only: list_all_rev)
  ultimately have "\<exists>pre suf. line = pre @ lstrip (rstrip line) @ suf \<and>
      list_all isspace pre \<and> list_all isspace suf"
    by blast
  with step show ?thesis by (intro conjI)
qed

text \<open>
  C6: for every input word list and blocklist set, the kept count plus the removed
  count equals the number of input lines, and the number of lines in the output file
  equals the kept count.
\<close>

theorem output_counts:
  assumes "files fs input_path = Some content"
    and "output_path \<notin> locked fs"
    and "input_path \<noteq> output_path"
  shows "\<exists>fs' kept removed removed_ws out.
     filter_wordlist fs input_path output_path blocked_words = Inr (fs', kept, removed, removed_ws) \<and>
     files fs' output_path = Some out \<and>
     kept + removed = int (length (read_lines content)) \<and>
     int (length (read_lines out)) = kept"
proof -
  have "length (filter (\<lambda>w. lower w \<notin> blocked_words) (map strip (read_lines content))) +
        length (filter (\<lambda>w. lower w \<in> blocked_words) (map strip (read_lines content))) =
        length (read_lines content)"
    using sum_length_filter_compl [of "\<lambda>w. lower w \<in> blocked_words" "map strip (read_lines content)"]
    by simp
  then show ?thesis
    unfolding filter_wordlist_run [OF assms]
    by (simp add: read_lines_written)
qed

text \<open>
  The theorem at a word list of three lines.
\<close>

theorem output_counts_witness:
  "files padded_fs ''all.txt'' = Some '' dog\<newline>  \<newline>Cat \<newline>'' \<and>
   ''all_filtered.txt'' \<notin> locked padded_fs \<and>
   ''all.txt'' \<noteq> ''all_filtered.txt'' \<and>
   (\<exists>fs' kept removed removed_ws out.
     filter_wordlist padded_fs ''all.txt'' ''all_filtered.txt'' {''cat''} =
       Inr (fs', kept, removed, removed_ws) \<and>
     files fs' ''all_filtered.txt'' = Some out \<and>
     kept + removed = 3 \<and> int (length (read_lines out)) = kept)"
proof -
  have inp: "files padded_fs ''all.txt'' = Some '' dog\<newline>  \<newline>Cat \<newline>''"
    by (simp add: padded_fs_def)
  have wr: "''all_filtered.txt'' \<notin> locked padded_fs"
    by (simp add: padded_fs_def)
  have ne: "''all.txt'' \<noteq> ''all_filtered.txt''"
    by simp
  have n: "int (length (read_lines '' dog\<newline>  \<newline>Cat \<newline>'')) = 3"
    by (simp add: text_eval)
  show ?thesis
    using output_counts [OF inp wr ne, of "{''cat''}"] inp wr ne
    unfolding n by simp
qed

text \<open>
  C7: filtering is idempotent. For every input word list and blocklist set, running
  the filter again on the produced output file with the same blocklist set removes
  nothing (removed count 0, no removed words), keeps as many words as the first run
  kept, and writes an output identical to its input.
\<close>

theorem refilter_stable:
  assumes "files fs input_path = Some content"
    and "output_path \<notin> locked fs"
    and "input_path \<noteq> output_path"
    and "second_path \<notin> locked fs"
    and "output_path \<noteq> second_path"
  shows "\<exists>fs1 kept1 removed1 removed_ws1 fs2.
     filter_wordlist fs input_path output_path blocked_words =
       Inr (fs1, kept1, removed1, removed_ws1) \<and>
     filter_wordlist fs1 output_path second_path blocked_words = Inr (fs2, kept1, 0, []) \<and>
     files fs2 second_path = files fs1 output_path"
proof -
  let ?ws = "filter (\<lambda>w. lower w \<notin> blocked_words) (map strip (read_lines content))"
  let ?out = "concat (map (\<lambda>w. w @ [LF]) ?ws)"
  let ?fs1 = "fs\<lparr>files := (files fs)(output_path \<mapsto> ?out)\<rparr>"
  have inp2: "files ?fs1 output_path = Some ?out" by simp
  have wr2: "second_path \<notin> locked ?fs1" using assms(4) by simp
  have words2: "map strip (read_lines ?out) = ?ws"
    by (simp only: read_lines_written map_strip_written)
  have keep: "filter (\<lambda>w. lower w \<notin> blocked_words) ?ws = ?ws"
    by simp
  have drop: "filter (\<lambda>w. lower w \<in> blocked_words) ?ws = []"
    by (simp add: filter_empty_conv)
  show ?thesis
    unfolding filter_wordlist_run [OF assms(1-3)]
    using filter_wordlist_run [OF inp2 wr2 assms(5), of blocked_words]
    by (simp add: words2 keep drop)
qed

text \<open>
  The theorem at the scenario's word list, filtered twice against \<open>{cat}\<close>.
\<close>

theorem refilter_stable_witness:
  "files scenario_fs ''all.txt'' =
     Some ''cat\<newline>Cat\<newline>ball gag\<newline>ball\<newline>dog\<newline>'' \<and>
   ''all_filtered.txt'' \<notin> locked scenario_fs \<and>
   ''all.txt'' \<noteq> ''all_filtered.txt'' \<and>
   ''again.txt'' \<notin> locked scenario_fs \<and>
   ''all_filtered.txt'' \<noteq> ''again.txt'' \<and>
   (\<exists>fs1 fs2.
     filter_wordlist scenario_fs ''all.txt'' ''all_filtered.txt'' {''cat''} =
       Inr (fs1, 3, 2, [''cat'', ''Cat'']) \<and>
     filter_wordlist fs1 ''all_filtered.txt'' ''again.txt'' {''cat''} = Inr (fs2, 3, 0, []) \<and>
     files fs2 ''again.txt'' = files fs1 ''all_filtered.txt'')"
proof -
  have inp: "files scenario_fs ''all.txt'' =
      Some ''cat\<newline>Cat\<newline>ball gag\<newline>ball\<newline>dog\<newline>''"
    by (simp add: scenario_fs_def)
  have wr: "''all_filtered.txt'' \<notin> locked scenario_fs"
    by (simp add: scenario_fs_def)
  have ne: "''all.txt'' \<noteq> ''all_filtered.txt''"
    by simp
  have wr2: "''again.txt'' \<notin> locked scenario_fs"
    by (simp add: scenario_fs_def)
  have ne2: "''all_filtered.txt'' \<noteq> ''again.txt''"
    by simp
  have run: "filter_wordlist scenario_fs ''all.txt'' ''all_filtered.txt'' {''cat''} =
     Inr (scenario_fs\<lparr>files := (files scenario_fs)
            (''all_filtered.txt'' \<mapsto> ''ball gag\<newline>ball\<newline>dog\<newline>'')\<rparr>,
          3, 2, [''cat'', ''Cat''])"
    unfolding filter_wordlist_run [OF inp wr ne] by (simp add: text_eval)
  from refilter_stable [OF inp wr ne wr2 ne2, of "{''cat''}"]
  obtain fs1 kept1 removed1 removed_ws1 fs2 where
    a: "filter_wordlist scenario_fs ''all.txt'' ''all_filtered.txt'' {''cat''} =
       Inr (fs1, kept1, removed1, removed_ws1)" and
    b: "filter_wordlist fs1 ''all_filtered.txt'' ''again.txt'' {''cat''} = Inr (fs2, kept1, 0, [])" and
    c: "files fs2 ''again.txt'' = files fs1 ''all_filtered.txt''"
    by (elim exE conjE)
  from a run have k: "kept1 = 3" and r: "removed1 = 2" and rw: "removed_ws1 = [''cat'', ''Cat'']"
    by simp_all
  from a b c have "\<exists>fs1 fs2.
     filter_wordlist scenario_fs ''all.txt'' ''all_filtered.txt'' {''cat''} =
       Inr (fs1, 3, 2, [''cat'', ''Cat'']) \<and>
     filter_wordlist fs1 ''all_filtered.txt'' ''again.txt'' {''cat''} = Inr (fs2, 3, 0, []) \<and>
     files fs2 ''again.txt'' = files fs1 ''all_filtered.txt''"
    unfolding k r rw by (intro exI conjI)
  with inp wr ne wr2 ne2 show ?thesis by (intro conjI)
qed

text \<open>
  C8: on the run with blocklist file lines \<open>cat\<close>, \<open>ball gag\<close> and input lines
  \<open>cat\<close>, \<open>Cat\<close>, \<open>ball gag\<close>, \<open>ball\<close>, \<open>dog\<close>, the loader yields the set
  \<open>{cat}\<close>, the output lines are \<open>ball gag\<close>, \<open>ball\<close>, \<open>dog\<close>, the removed words
  are \<open>cat\<close>, \<open>Cat\<close>, the kept count is 3 and the removed count is 2.
\<close>

theorem scenario_run:
  "load_blocklist scenario_fs ''blocklist.txt'' = Inr {''cat''} \<and>
   filter_wordlist scenario_fs ''all.txt'' ''all_filtered.txt'' {''cat''} =
     Inr (scenario_fs\<lparr>files := (files scenario_fs)
            (''all_filtered.txt'' \<mapsto> ''ball gag\<newline>ball\<newline>dog\<newline>'')\<rparr>,
          3, 2, [''cat'', ''Cat'']) \<and>
   read_lines ''ball gag\<newline>ball\<newline>dog\<newline>'' =
     [''ball gag\<newline>'', ''ball\<newline>'', ''dog\<newline>'']"
proof -
  have inp: "files scenario_fs ''all.txt'' =
      Some ''cat\<newline>Cat\<newline>ball gag\<newline>ball\<newline>dog\<newline>''"
    by (simp add: scenario_fs_def)
  have wr: "''all_filtered.txt'' \<notin> locked scenario_fs"
    by (simp add: scenario_fs_def)
  have ne: "''all.txt'' \<noteq> ''all_filtered.txt''"
    by simp
  have load: "load_blocklist scenario_fs ''blocklist.txt'' = Inr {''cat''}"
    by (simp add: load_blocklist_def scenario_fs_def load_step_def text_eval)
  have run: "filter_wordlist scenario_fs ''all.txt'' ''all_filtered.txt'' {''cat''} =
     Inr (scenario_fs\<lparr>files := (files scenario_fs)
            (''all_filtered.txt'' \<mapsto> ''ball gag\<newline>ball\<newline>dog\<newline>'')\<rparr>,
          3, 2, [''cat'', ''Cat''])"
    unfolding filter_wordlist_run [OF inp wr ne] by (simp add: text_eval)
  have out: "read_lines ''ball gag\<newline>ball\<newline>dog\<newline>'' =
     [''ball gag\<newline>'', ''ball\<newline>'', ''dog\<newline>'']"
    by (simp add: text_eval)
  from load run out show ?thesis by (intro conjI)
qed

text \<open>
  C9: every line written to the output file equals the corresponding kept input line
  with both leading and trailing whitespace stripped (and a newline appended); no
  output line has leading or trailing whitespace before its newline.
\<close>

theorem output_lines_stripped:
  assumes "files fs input_path = Some content"
    and "output_path \<notin> locked fs"
    and "input_path \<noteq> output_path"
  shows "\<exists>fs' kept removed removed_ws out.
     filter_wordlist fs input_path output_path blocked_words = Inr (fs', kept, removed, removed_ws) \<and>
     files fs' output_path = Some out \<and>
     read_lines out =
       map (\<lambda>line. strip line @ [LF])
         (filter (\<lambda>line. lower (strip line) \<notin> blocked_words) (read_lines content)) \<and>
     (\<forall>w. w @ [LF] \<in> set (read_lines out) \<longrightarrow> lstrip w = w \<and> rstrip w = w)"
proof -
  let ?out = "concat (map (\<lambda>w. w @ [LF])
       (filter (\<lambda>w. lower w \<notin> blocked_words) (map strip (read_lines content))))"
  have eq: "read_lines ?out =
       map (\<lambda>line. strip line @ [LF])
         (filter (\<lambda>line. lower (strip line) \<notin> blocked_words) (read_lines content))"
    using read_lines_written [of "\<lambda>w. lower w \<notin> blocked_words" content]
    by (simp only: kept_lines_stripped)
  have "lstrip w = w \<and> rstrip w = w" if "w @ [LF] \<in> set (read_lines ?out)" for w
  proof -
    from that obtain line where "w = strip line"
      unfolding eq by auto
    then show ?thesis using strip_no_margin [of line] by simp
  qed
  with eq show ?thesis
    unfolding filter_wordlist_run [OF assms] by simp
qed

text \<open>
  The theorem at a padded word list with an empty blocklist set.
\<close>

theorem output_lines_stripped_witness:
  "files padded_fs ''all.txt'' = Some '' dog\<newline>  \<newline>Cat \<newline>'' \<and>
   ''all_filtered.txt'' \<notin> locked padded_fs \<and>
   ''all.txt'' \<noteq> ''all_filtered.txt'' \<and>
   (\<exists>fs' kept removed removed_ws out.
     filter_wordlist padded_fs ''all.txt'' ''all_filtered.txt'' {} =
       Inr (fs', kept, removed, removed_ws) \<and>
     files fs' ''all_filtered.txt'' = Some out \<and>
     read_lines out = [''dog\<newline>'', ''\<newline>'', ''Cat\<newline>''])"
proof -
  have inp: "files padded_fs ''all.txt'' = Some '' dog\<newline>  \<newline>Cat \<newline>''"
    by (simp add: padded_fs_def)
  have wr: "''all_filtered.txt'' \<notin> locked padded_fs"
    by (simp add: padded_fs_def)
  have ne: "''all.txt'' \<noteq> ''all_filtered.txt''"
    by simp
  have ws: "map (\<lambda>line. strip line @ [LF])
         (filter (\<lambda>line. lower (strip line) \<notin> {}) (read_lines '' dog\<newline>  \<newline>Cat \<newline>'')) =
       [''dog\<newline>'', ''\<newline>'', ''Cat\<newline>'']"
    by (simp add: text_eval)
  from output_lines_stripped [OF inp wr ne, of "{}"]
  obtain fs' kept removed removed_ws out where
    "filter_wordlist padded_fs ''all.txt'' ''all_filtered.txt'' {} =
       Inr (fs', kept, removed, removed_ws)"
    "files fs' ''all_filtered.txt'' = Some out"
    "read_lines out = [''dog\<newline>'', ''\<newline>'', ''Cat\<newline>'']"
    unfolding ws by (elim exE conjE)
  then have "\<exists>fs' kept removed removed_ws out.
     filter_wordlist padded_fs ''all.txt'' ''all_filtered.txt'' {} =
       Inr (fs', kept, removed, removed_ws) \<and>
     files fs' ''all_filtered.txt'' = Some out \<and>
     read_lines out = [''dog\<newline>'', ''\<newline>'', ''Cat\<newline>'']"
    by (intro exI conjI)
  with inp wr ne show ?thesis by (intro conjI)
qed

text \<open>
  C10: for every blocklist file, the empty string is not a member of the blocklist
  set, so in a run of the filter with that set every empty or all-whitespace input
  line is kept and written to the output as an empty line, and is never counted as
  removed: the output holds as many empty lines as the input holds blank lines, no
  removed word is empty, and the removed words come from non-blank lines only. For
  such a line the step of the filter writes a lone newline and adds one to the kept
  count.
\<close>

theorem blank_lines_kept:
  assumes "files fs blocklist_path = Some listed"
    and "files fs input_path = Some content"
    and "output_path \<notin> locked fs"
    and "input_path \<noteq> output_path"
  shows "\<exists>blocked fs' kept removed removed_ws out.
     load_blocklist fs blocklist_path = Inr blocked \<and>
     [] \<notin> blocked \<and>
     filter_wordlist fs input_path output_path blocked = Inr (fs', kept, removed, removed_ws) \<and>
     files fs' output_path = Some out \<and>
     read_lines out =
       map (\<lambda>line. strip line @ [LF])
         (filter (\<lambda>line. list_all isspace line \<or> lower (strip line) \<notin> blocked)
            (read_lines content)) \<and>
     length (filter (\<lambda>l. l = [LF]) (read_lines out)) =
       length (filter (list_all isspace) (read_lines content)) \<and>
     removed = int (length removed_ws) \<and>
     [] \<notin> set removed_ws \<and>
     removed_ws =
       map strip (filter (\<lambda>line. \<not> list_all isspace line \<and> lower (strip line) \<in> blocked)
         (read_lines content)) \<and>
     (\<forall>line st. list_all isspace line \<longrightarrow>
        filter_step blocked line st =
          st\<lparr>outfile := outfile st @ [LF], kept_count := kept_count st + 1\<rparr>)"
proof -
  let ?B = "load_loop (read_lines listed) {}"
  let ?out = "concat (map (\<lambda>w. w @ [LF])
       (filter (\<lambda>w. lower w \<notin> ?B) (map strip (read_lines content))))"
  have l: "load_blocklist fs blocklist_path = Inr ?B"
    using assms(1) by (simp add: load_blocklist_def)
  have e: "[] \<notin> ?B"
    by (simp add: load_loop_eq)
  have blank: "lower (strip line) \<notin> ?B" if "list_all isspace line" for line
    using strip_all_space [OF that] e by (simp add: lower_def)
  have keepP: "(\<lambda>line. lower (strip line) \<notin> ?B) =
      (\<lambda>line. list_all isspace line \<or> lower (strip line) \<notin> ?B)"
    using blank by auto
  have dropP: "(\<lambda>line. lower (strip line) \<in> ?B) =
      (\<lambda>line. \<not> list_all isspace line \<and> lower (strip line) \<in> ?B)"
    using blank by auto
  have eq0: "read_lines ?out =
       map (\<lambda>line. strip line @ [LF])
         (filter (\<lambda>line. lower (strip line) \<notin> ?B) (read_lines content))"
    using read_lines_written [of "\<lambda>w. lower w \<notin> ?B" content]
    by (simp only: kept_lines_stripped)
  have eq: "read_lines ?out =
       map (\<lambda>line. strip line @ [LF])
         (filter (\<lambda>line. list_all isspace line \<or> lower (strip line) \<notin> ?B)
            (read_lines content))"
    using eq0 keepP by simp
  have cnt: "length (filter (\<lambda>l. l = [LF]) (read_lines ?out)) =
       length (filter (list_all isspace) (read_lines content))"
    unfolding eq0 using e by (rule blank_lines_counted)
  have rw0: "filter (\<lambda>w. lower w \<in> ?B) (map strip (read_lines content)) =
       map strip (filter (\<lambda>line. lower (strip line) \<in> ?B) (read_lines content))"
    by (rule removed_words_stripped)
  have rw: "filter (\<lambda>w. lower w \<in> ?B) (map strip (read_lines content)) =
       map strip (filter (\<lambda>line. \<not> list_all isspace line \<and> lower (strip line) \<in> ?B)
         (read_lines content))"
    using rw0 dropP by simp
  have nr: "[] \<notin> set (filter (\<lambda>w. lower w \<in> ?B) (map strip (read_lines content)))"
    using e by (auto simp: lower_def)
  have step: "\<forall>line st. list_all isspace line \<longrightarrow>
        filter_step ?B line st =
          st\<lparr>outfile := outfile st @ [LF], kept_count := kept_count st + 1\<rparr>"
  proof (intro allI impI)
    fix line st
    assume "list_all isspace line"
    then have "strip line = []" by (rule strip_all_space)
    with e show "filter_step ?B line st =
          st\<lparr>outfile := outfile st @ [LF], kept_count := kept_count st + 1\<rparr>"
      by (simp add: filter_step_def Let_def lower_def)
  qed
  have run: "filter_wordlist fs input_path output_path ?B =
     Inr (fs\<lparr>files := (files fs)(output_path \<mapsto> ?out)\<rparr>,
          int (length (filter (\<lambda>w. lower w \<notin> ?B) (map strip (read_lines content)))),
          int (length (filter (\<lambda>w. lower w \<in> ?B) (map strip (read_lines content)))),
          filter (\<lambda>w. lower w \<in> ?B) (map strip (read_lines content)))"
    by (rule filter_wordlist_run [OF assms(2-4)])
  have o: "files (fs\<lparr>files := (files fs)(output_path \<mapsto> ?out)\<rparr>) output_path = Some ?out"
    by simp
  from l e run o eq cnt nr rw step show ?thesis
    by (intro exI conjI) (assumption | rule refl)+
qed

text \<open>
  The theorem at the blocklist \<open>cat\<close> and a padded word list with one blank line.
\<close>

theorem blank_lines_kept_witness:
  "files padded_fs ''blocklist.txt'' = Some ''cat\<newline>'' \<and>
   files padded_fs ''all.txt'' = Some '' dog\<newline>  \<newline>Cat \<newline>'' \<and>
   ''all_filtered.txt'' \<notin> locked padded_fs \<and>
   ''all.txt'' \<noteq> ''all_filtered.txt'' \<and>
   load_blocklist padded_fs ''blocklist.txt'' = Inr {''cat''} \<and>
   (\<exists>fs' kept out.
     filter_wordlist padded_fs ''all.txt'' ''all_filtered.txt'' {''cat''} =
       Inr (fs', kept, 1, [''Cat'']) \<and>
     files fs' ''all_filtered.txt'' = Some out \<and>
     read_lines out = [''dog\<newline>'', ''\<newline>''] \<and>
     length (filter (\<lambda>l. l = [LF]) (read_lines out)) = 1)"
proof -
  have bl: "files padded_fs ''blocklist.txt'' = Some ''cat\<newline>''"
    by (simp add: padded_fs_def)
  have inp: "files padded_fs ''all.txt'' = Some '' dog\<newline>  \<newline>Cat \<newline>''"
    by (simp add: padded_fs_def)
  have wr: "''all_filtered.txt'' \<notin> locked padded_fs"
    by (simp add: padded_fs_def)
  have ne: "''all.txt'' \<noteq> ''all_filtered.txt''"
    by simp
  have load: "load_blocklist padded_fs ''blocklist.txt'' = Inr {''cat''}"
    by (simp add: load_blocklist_def padded_fs_def load_step_def text_eval)
  have ks: "map (\<lambda>line. strip line @ [LF])
         (filter (\<lambda>line. list_all isspace line \<or> lower (strip line) \<notin> {''cat''})
            (read_lines '' dog\<newline>  \<newline>Cat \<newline>'')) = [''dog\<newline>'', ''\<newline>'']"
    by (simp add: text_eval)
  have rs: "map strip
         (filter (\<lambda>line. \<not> list_all isspace line \<and> lower (strip line) \<in> {''cat''})
            (read_lines '' dog\<newline>  \<newline>Cat \<newline>'')) = [''Cat'']"
    by (simp add: text_eval)
  have bs: "length (filter (list_all isspace) (read_lines '' dog\<newline>  \<newline>Cat \<newline>'')) = 1"
    by (simp add: text_eval)
  from blank_lines_kept [OF bl inp wr ne]
  obtain blocked fs' kept removed removed_ws out where
    a: "load_blocklist padded_fs ''blocklist.txt'' = Inr blocked" and
    b: "filter_wordlist padded_fs ''all.txt'' ''all_filtered.txt'' blocked =
       Inr (fs', kept, removed, removed_ws)" and
    c: "files fs' ''all_filtered.txt'' = Some out" and
    d: "read_lines out =
       map (\<lambda>line. strip line @ [LF])
         (filter (\<lambda>line. list_all isspace line \<or> lower (strip line) \<notin> blocked)
            (read_lines '' dog\<newline>  \<newline>Cat \<newline>''))" and
    e: "length (filter (\<lambda>l. l = [LF]) (read_lines out)) =
       length (filter (list_all isspace) (read_lines '' dog\<newline>  \<newline>Cat \<newline>''))" and
    f: "removed = int (length removed_ws)" and
    g: "removed_ws =
       map strip (filter (\<lambda>line. \<not> list_all isspace line \<and> lower (strip line) \<in> blocked)
         (read_lines '' dog\<newline>  \<newline>Cat \<newline>''))"
    by (elim exE conjE)
  from a load have B: "blocked = {''cat''}" by simp
  from g have rw: "removed_ws = [''Cat'']" unfolding B rs .
  from f rw have r: "removed = 1" by simp
  from d have o: "read_lines out = [''dog\<newline>'', ''\<newline>'']" unfolding B ks .
  from e have n: "length (filter (\<lambda>l. l = [LF]) (read_lines out)) = 1" unfolding bs .
  from b have run: "filter_wordlist padded_fs ''all.txt'' ''all_filtered.txt'' {''cat''} =
       Inr (fs', kept, 1, [''Cat''])" unfolding B rw r .
  from run c o n have "\<exists>fs' kept out.
     filter_wordlist padded_fs ''all.txt'' ''all_filtered.txt'' {''cat''} =
       Inr (fs', kept, 1, [''Cat'']) \<and>
     files fs' ''all_filtered.txt'' = Some out \<and>
     read_lines out = [''dog\<newline>'', ''\<newline>''] \<and>
     length (filter (\<lambda>l. l = [LF]) (read_lines out)) = 1"
    by (intro exI conjI)
  with bl inp wr ne load show ?thesis by (intro conjI)
qed

end
